theory Spec2Isabelle
  imports Complex_Main "HOL-Library.Word"
begin

section \<open>The lux meter sketch (labN5/2.ino)\<close>

text \<open>
  The sketch is written for the Arduino UNO (the EEPROM size constant says so), so the
  types are those of avr-gcc: \<open>int\<close> is 16 bits, \<open>unsigned long\<close> and \<open>uint32_t\<close> are 32
  bits, \<open>size_t\<close> is an unsigned 16-bit integer, \<open>float\<close> (and \<open>double\<close>) is IEEE-754
  binary32, and a struct has no padding.
\<close>

subsection \<open>The type float: IEEE-754 binary32\<close>

text \<open>
  A float is a finite value (a rational; the representable ones are singled out by
  \<open>finite_float\<close> below), an infinity or a NaN. The two zeros are one value \<open>Fin 0\<close>: the
  code below never divides by a zero whose sign could matter (every divisor that can be
  zero is a difference \<open>x - x\<close>, which is \<open>+0\<close>), and \<open>-0\<close> and \<open>+0\<close> compare equal.
\<close>

datatype float = Fin rat | PInf | NInf | NaN

text \<open>Round to the nearest integer, ties to the even one.\<close>

definition rne :: "rat \<Rightarrow> int" where
  "rne q = (let f = \<lfloor>q\<rfloor>; r = q - of_int f in
              if r < 1 / 2 then f
              else if 1 / 2 < r then f + 1
              else if even f then f else f + 1)"

fun ilog2 :: "nat \<Rightarrow> nat" where
  "ilog2 n = (if n < 2 then 0 else Suc (ilog2 (n div 2)))"

text \<open>The binary exponent of a positive rational: \<open>2 powi expo a \<le> a < 2 powi (expo a + 1)\<close>.\<close>

definition expo :: "rat \<Rightarrow> int" where
  "expo a = (if 1 \<le> a then int (ilog2 (nat \<lfloor>a\<rfloor>))
             else - int (ilog2 (nat (\<lceil>1 / a\<rceil> - 1))) - 1)"

text \<open>
  The spacing of binary32 values around \<open>x\<close>: 24 significant bits, and the exponent of
  the subnormal numbers (\<open>- 126\<close>) below the normal range.
\<close>

definition qexp :: "rat \<Rightarrow> int" where
  "qexp x = max (expo \<bar>x\<bar>) (- 126) - 23"

definition round_fin :: "rat \<Rightarrow> rat" where
  "round_fin x = (if x = 0 then 0 else of_int (rne (x / 2 powi qexp x)) * 2 powi qexp x)"

text \<open>Rounding a real result to a float: to nearest, ties to even, overflow to infinity.\<close>

definition fl :: "rat \<Rightarrow> float" where
  "fl x = (let y = round_fin x in
            if 2 ^ 128 \<le> y then PInf
            else if y \<le> - (2 ^ 128) then NInf
            else Fin y)"

text \<open>
  The values of the type \<open>float\<close> proper: a finite value is one when rounding leaves
  it as it is.
\<close>

fun finite_float :: "float \<Rightarrow> bool" where
  "finite_float (Fin x) = (fl x = Fin x)"
| "finite_float PInf = False"
| "finite_float NInf = False"
| "finite_float NaN = False"

fun val :: "float \<Rightarrow> rat" where
  "val (Fin x) = x"
| "val PInf = 0"
| "val NInf = 0"
| "val NaN = 0"

fun fneg :: "float \<Rightarrow> float" where
  "fneg (Fin x) = Fin (- x)"
| "fneg PInf = NInf"
| "fneg NInf = PInf"
| "fneg NaN = NaN"

fun fabs :: "float \<Rightarrow> float" where
  "fabs (Fin x) = Fin \<bar>x\<bar>"
| "fabs PInf = PInf"
| "fabs NInf = PInf"
| "fabs NaN = NaN"

fun fadd :: "float \<Rightarrow> float \<Rightarrow> float" where
  "fadd (Fin x) (Fin y) = fl (x + y)"
| "fadd (Fin x) PInf = PInf"
| "fadd (Fin x) NInf = NInf"
| "fadd PInf (Fin y) = PInf"
| "fadd NInf (Fin y) = NInf"
| "fadd PInf PInf = PInf"
| "fadd NInf NInf = NInf"
| "fadd PInf NInf = NaN"
| "fadd NInf PInf = NaN"
| "fadd NaN b = NaN"
| "fadd a NaN = NaN"

definition fsub :: "float \<Rightarrow> float \<Rightarrow> float" where
  "fsub a b = fadd a (fneg b)"

fun fmul :: "float \<Rightarrow> float \<Rightarrow> float" where
  "fmul (Fin x) (Fin y) = fl (x * y)"
| "fmul (Fin x) PInf = (if x = 0 then NaN else if 0 < x then PInf else NInf)"
| "fmul (Fin x) NInf = (if x = 0 then NaN else if 0 < x then NInf else PInf)"
| "fmul PInf (Fin y) = (if y = 0 then NaN else if 0 < y then PInf else NInf)"
| "fmul NInf (Fin y) = (if y = 0 then NaN else if 0 < y then NInf else PInf)"
| "fmul PInf PInf = PInf"
| "fmul NInf NInf = PInf"
| "fmul PInf NInf = NInf"
| "fmul NInf PInf = NInf"
| "fmul NaN b = NaN"
| "fmul a NaN = NaN"

fun fdiv :: "float \<Rightarrow> float \<Rightarrow> float" where
  "fdiv (Fin x) (Fin y) =
     (if y = 0 then (if x = 0 then NaN else if 0 < x then PInf else NInf)
      else fl (x / y))"
| "fdiv (Fin x) PInf = Fin 0"
| "fdiv (Fin x) NInf = Fin 0"
| "fdiv PInf (Fin y) = (if 0 \<le> y then PInf else NInf)"
| "fdiv NInf (Fin y) = (if 0 \<le> y then NInf else PInf)"
| "fdiv PInf PInf = NaN"
| "fdiv NInf NInf = NaN"
| "fdiv PInf NInf = NaN"
| "fdiv NInf PInf = NaN"
| "fdiv NaN b = NaN"
| "fdiv a NaN = NaN"

text \<open>The comparisons of C: every comparison with a NaN is false.\<close>

fun fle :: "float \<Rightarrow> float \<Rightarrow> bool" where
  "fle (Fin x) (Fin y) = (x \<le> y)"
| "fle NaN b = False"
| "fle a NaN = False"
| "fle NInf b = True"
| "fle a PInf = True"
| "fle a NInf = False"
| "fle PInf b = False"

fun flt :: "float \<Rightarrow> float \<Rightarrow> bool" where
  "flt (Fin x) (Fin y) = (x < y)"
| "flt NaN b = False"
| "flt a NaN = False"
| "flt PInf b = False"
| "flt a NInf = False"
| "flt NInf b = True"
| "flt a PInf = True"

text \<open>The conversion of an \<open>int\<close> (16 bits, two's complement) to float.\<close>

definition float_of_int :: "16 word \<Rightarrow> float" where
  "float_of_int n = fl (of_int (sint n))"

subsection \<open>Calibration table and interpolation\<close>

record CalibrationPoint =
  adc :: "16 word"
  lux :: float

definition CalibrationData :: "CalibrationPoint list" where
  "CalibrationData =
    [\<lparr>adc = 200, lux = Fin 10\<rparr>, \<lparr>adc = 400, lux = Fin 150\<rparr>,
     \<lparr>adc = 500, lux = Fin 300\<rparr>, \<lparr>adc = 600, lux = Fin 500\<rparr>,
     \<lparr>adc = 700, lux = Fin 750\<rparr>, \<lparr>adc = 800, lux = Fin 1000\<rparr>,
     \<lparr>adc = 850, lux = Fin 1200\<rparr>, \<lparr>adc = 900, lux = Fin 1300\<rparr>,
     \<lparr>adc = 950, lux = Fin 1400\<rparr>, \<lparr>adc = 1000, lux = Fin 1500\<rparr>]"

definition CalibrationSize :: nat where
  "CalibrationSize = length CalibrationData"

text \<open>
  \<open>calculateLuxFromADC\<close> receives a bare pointer and takes the number of points from the
  global \<open>CalibrationSize\<close>; the only array the sketch ever passes is \<open>CalibrationData\<close>,
  whose length \<open>CalibrationSize\<close> is. The model takes the table as a list and uses its
  length where the source uses \<open>CalibrationSize\<close>, so that the function is defined on a
  table of any size. Reading \<open>data[0]\<close> of an empty table is undefined in C; the theorems
  below are about tables with at least one point.

  The result carries the branch that produced it, so that the fallback \<open>return 0.0\<close> can
  be told from an interpolated \<open>0.0\<close>.
\<close>

datatype branch = ClampLow | ClampHigh | Segment nat | Fallback

text \<open>The body of the \<open>if\<close> in the loop, lines 144 to 148.\<close>

definition interpolate :: "16 word \<Rightarrow> CalibrationPoint \<Rightarrow> CalibrationPoint \<Rightarrow> float" where
  "interpolate D p q =
     (let D1 = float_of_int (adc p);
          E1 = lux p;
          D2 = float_of_int (adc q);
          E2 = lux q
      in fadd E1 (fmul (fsub E2 E1) (fdiv (fsub (float_of_int D) D1) (fsub D2 D1))))"

text \<open>The \<open>for\<close> loop, entered at index \<open>i\<close>.\<close>

function scan :: "16 word \<Rightarrow> CalibrationPoint list \<Rightarrow> nat \<Rightarrow> branch \<times> float" where
  "scan D data i =
     (if i + 1 < length data then
        if sint (adc (data ! i)) \<le> sint D \<and> sint D \<le> sint (adc (data ! (i + 1)))
        then (Segment i, interpolate D (data ! i) (data ! (i + 1)))
        else scan D data (i + 1)
      else (Fallback, Fin 0))"
  by pat_completeness auto
termination
  by (relation "measure (\<lambda>(D, data, i). length data - i)") auto

definition calculateLuxFromADC_branch ::
  "16 word \<Rightarrow> CalibrationPoint list \<Rightarrow> branch \<times> float" where
  "calculateLuxFromADC_branch D data =
     (if sint D \<le> sint (adc (data ! 0)) then (ClampLow, lux (data ! 0))
      else if sint (adc (data ! (length data - 1))) \<le> sint D
           then (ClampHigh, lux (data ! (length data - 1)))
      else scan D data 0)"

definition calculateLuxFromADC :: "16 word \<Rightarrow> CalibrationPoint list \<Rightarrow> float" where
  "calculateLuxFromADC D data = snd (calculateLuxFromADC_branch D data)"

subsection \<open>The calibration self-test\<close>

text \<open>
  \<open>printCalibrationTable\<close> prints; the model returns what it prints: one row per
  calibration point, the maximum and the mean relative error, and the accuracy class.
  The literals \<open>100.0\<close>, \<open>1.0\<close>, \<open>2.0\<close> and \<open>5.0\<close> are doubles, which avr-gcc
  represents as binary32 too.
\<close>

record table_row =
  row_adc :: "16 word"
  referenceLux :: float
  measuredLux :: float
  error :: float
  relativeError :: float

record self_test_report =
  rows :: "table_row list"
  maxRelativeError :: float
  avgError :: float
  accuracy_class :: string

definition self_test_row :: "CalibrationPoint \<Rightarrow> table_row" where
  "self_test_row p =
     (let a = adc p;
          r = lux p;
          m = calculateLuxFromADC a CalibrationData;
          e = fsub m r
      in \<lparr>row_adc = a, referenceLux = r, measuredLux = m, error = e,
          relativeError = fmul (fdiv e r) (Fin 100)\<rparr>)"

text \<open>The two accumulators of the loop, lines 404 to 407.\<close>

definition accumulate :: "float \<times> float \<Rightarrow> table_row \<Rightarrow> float \<times> float" where
  "accumulate acc r =
     (let maxRel = fst acc; sumRel = snd acc; rel = relativeError r
      in (if flt (fabs maxRel) (fabs rel) then rel else maxRel, fadd sumRel (fabs rel)))"

text \<open>The \<open>if\<close> chain of lines 422 to 430.\<close>

definition accuracyClass :: "float \<Rightarrow> string" where
  "accuracyClass m =
     (if fle (fabs m) (Fin 1) then ''0.5''
      else if fle (fabs m) (Fin 2) then ''1.0''
      else if fle (fabs m) (Fin 5) then ''2.5''
      else ''4.0'')"

definition printCalibrationTable :: self_test_report where
  "printCalibrationTable =
     (let rs = map self_test_row CalibrationData;
          acc = foldl accumulate (Fin 0, Fin 0) rs;
          maxRel = fst acc;
          sumRel = snd acc
      in \<lparr>rows = rs, maxRelativeError = maxRel,
          avgError = fdiv sumRel (float_of_int (of_nat CalibrationSize)),
          accuracy_class = accuracyClass maxRel\<rparr>)"

text \<open>
  The accuracy class as the specification words it, on the maximum relative error in
  percent.
\<close>

definition spec_accuracy_class :: "rat \<Rightarrow> string" where
  "spec_accuracy_class m =
     (if \<bar>m\<bar> \<le> 1 then ''0.5''
      else if \<bar>m\<bar> \<le> 2 then ''1.0''
      else if \<bar>m\<bar> \<le> 5 then ''2.5''
      else ''4.0'')"

subsection \<open>The circular log in the EEPROM\<close>

text \<open>
  \<open>EEPROM.put\<close> copies the bytes of the object, whatever they mean, so a log entry is
  modelled by its object representation: the float field by its 32-bit pattern, the
  time stamp, and the 21 characters of the label. With avr-gcc the struct has no
  padding and \<open>sizeof(LogEntry)\<close> is 4 + 4 + 21 = 29.
\<close>

record LogEntry =
  entry_lux :: "32 word"
  timestamp :: "32 word"
  label :: "8 word list"

definition le_bytes :: "32 word \<Rightarrow> 8 word list" where
  "le_bytes w = [ucast w, ucast (drop_bit 8 w), ucast (drop_bit 16 w), ucast (drop_bit 24 w)]"

definition object_bytes :: "LogEntry \<Rightarrow> 8 word list" where
  "object_bytes e =
     le_bytes (entry_lux e) @ le_bytes (timestamp e) @ take 21 (label e @ replicate 21 0)"

definition sizeof_LogEntry :: nat where
  "sizeof_LogEntry = 29"

definition EEPROM_SIZE :: nat where
  "EEPROM_SIZE = 1024"

text \<open>
  The state of \<open>saveToEEPROM\<close>: its static \<open>currentAddress\<close> (an \<open>int\<close>) and the
  contents of the EEPROM, a byte at every address.
\<close>

record eeprom_state =
  currentAddress :: "16 word"
  EEPROM :: "nat \<Rightarrow> 8 word"

definition initial_state :: eeprom_state where
  "initial_state = \<lparr>currentAddress = 0, EEPROM = (\<lambda>a. 0)\<rparr>"

text \<open>
  \<open>EEPROM.put(idx, t)\<close> writes the bytes of \<open>t\<close> at \<open>idx\<close>, \<open>idx + 1\<close>, ...: the
  address is the index read as an unsigned 16-bit pointer.
\<close>

fun EEPROM_put :: "(nat \<Rightarrow> 8 word) \<Rightarrow> 16 word \<Rightarrow> 8 word list \<Rightarrow> (nat \<Rightarrow> 8 word)" where
  "EEPROM_put mem idx [] = mem"
| "EEPROM_put mem idx (b # bs) = EEPROM_put (mem(unat idx := b)) (idx + 1) bs"

text \<open>
  The test of line 340: \<open>currentAddress + sizeof(entry)\<close> is computed in \<open>size_t\<close>
  (unsigned, 16 bits) and compared, unsigned, with \<open>EEPROM_SIZE\<close>.
\<close>

definition overflows :: "16 word \<Rightarrow> bool" where
  "overflows a = (of_nat EEPROM_SIZE \<le> a + of_nat sizeof_LogEntry)"

text \<open>The address the entry is written at: the cursor after lines 340 to 343.\<close>

definition write_address :: "eeprom_state \<Rightarrow> 16 word" where
  "write_address s = (if overflows (currentAddress s) then 0 else currentAddress s)"

definition saveToEEPROM :: "eeprom_state \<Rightarrow> LogEntry \<Rightarrow> eeprom_state" where
  "saveToEEPROM s entry =
     (let a = write_address s
      in \<lparr>currentAddress = a + of_nat sizeof_LogEntry,
          EEPROM = EEPROM_put (EEPROM s) a (object_bytes entry)\<rparr>)"

text \<open>The logger task calls \<open>saveToEEPROM\<close> once for every entry it receives.\<close>

definition vTaskLogger :: "LogEntry list \<Rightarrow> eeprom_state" where
  "vTaskLogger es = foldl saveToEEPROM initial_state es"

text \<open>The bytes of the store from address \<open>a\<close> on.\<close>

definition stored :: "eeprom_state \<Rightarrow> nat \<Rightarrow> nat \<Rightarrow> 8 word list" where
  "stored s a n = map (EEPROM s) [a ..< a + n]"

text \<open>An entry fits before the capacity boundary when all its bytes lie below it.\<close>

definition fits :: "16 word \<Rightarrow> bool" where
  "fits a = (unat a + sizeof_LogEntry \<le> EEPROM_SIZE)"

subsection \<open>The keyboard task\<close>

text \<open>
  One iteration of the loop of \<open>vTaskKeyboard\<close> reads the keypad and reads the clock
  \<open>millis()\<close> at most twice: at line 259, when the key is accepted, and at line 302.
  The three values are the inputs of the iteration; the commands take one or two
  seconds (\<open>vTaskDelay\<close>), which shows in the second clock value. The iteration returns
  the key it dispatched on (the \<open>switch\<close> of line 264), if any.
\<close>

record kb_state =
  lastKey :: "8 word"
  lastKeyTime :: "32 word"

record poll =
  key :: "8 word"
  millis_accept :: "32 word"
  millis_check :: "32 word"

definition kb_initial :: kb_state where
  "kb_initial = \<lparr>lastKey = 0, lastKeyTime = 0\<rparr>"

definition keyboard_iteration :: "kb_state \<Rightarrow> poll \<Rightarrow> kb_state \<times> 8 word list" where
  "keyboard_iteration s p =
     (let (s1, out) =
            (if key p \<noteq> 0 \<and> key p \<noteq> lastKey s
             then (s\<lparr>lastKey := key p, lastKeyTime := millis_accept p\<rparr>, [key p])
             else (s, []));
          s2 = (if 200 < millis_check p - lastKeyTime s1 then s1\<lparr>lastKey := 0\<rparr> else s1)
      in (s2, out))"

fun vTaskKeyboard :: "kb_state \<Rightarrow> poll list \<Rightarrow> kb_state \<times> 8 word list" where
  "vTaskKeyboard s [] = (s, [])"
| "vTaskKeyboard s (p # ps) =
     (let (s1, out1) = keyboard_iteration s p;
          (s2, out2) = vTaskKeyboard s1 ps
      in (s2, out1 @ out2))"

text \<open>
  A scenario in physical time, in milliseconds after the first call of \<open>getKey\<close>: when
  each iteration polls the keypad, what the keypad reports, and when the iteration
  reads the clock. \<open>seen_at t0\<close> turns it into the values the task sees, \<open>t0\<close> being the
  value of \<open>millis()\<close> at time 0.
\<close>

record timed_poll =
  reported :: "8 word"
  t_poll :: nat
  t_accept :: nat
  t_check :: nat

definition seen_at :: "32 word \<Rightarrow> timed_poll \<Rightarrow> poll" where
  "seen_at t0 q = \<lparr>key = reported q, millis_accept = t0 + of_nat (t_accept q),
              millis_check = t0 + of_nat (t_check q)\<rparr>"

text \<open>Time does not run backwards: within an iteration, and from one to the next.\<close>

fun chronological :: "nat \<Rightarrow> timed_poll list \<Rightarrow> bool" where
  "chronological t [] = True"
| "chronological t (q # qs) =
     (t \<le> t_poll q \<and> t_poll q \<le> t_accept q \<and> t_accept q \<le> t_check q \<and>
      chronological (t_check q) qs)"

subsection \<open>Well-formed calibration tables\<close>

text \<open>
  The data model of the specification: the table is sorted, strictly ascending, by the
  raw sample. The comparison is the one of the code, on signed 16-bit values.
\<close>

definition increasing_adc :: "CalibrationPoint list \<Rightarrow> bool" where
  "increasing_adc data = sorted_wrt (<) (map (\<lambda>p. sint (adc p)) data)"

text \<open>Strictly ascending reference values, compared as C compares floats.\<close>

definition increasing_lux :: "CalibrationPoint list \<Rightarrow> bool" where
  "increasing_lux data = sorted_wrt flt (map lux data)"

text \<open>
  The subtraction \<open>b - a\<close> of two floats is exact when both are finite and the result
  needs no rounding; \<open>exact_steps\<close> says so of every step from a reference value to the
  next.
\<close>

fun exact_difference :: "float \<Rightarrow> float \<Rightarrow> bool" where
  "exact_difference (Fin a) (Fin b) = (fsub (Fin b) (Fin a) = Fin (b - a))"
| "exact_difference PInf b = False"
| "exact_difference NInf b = False"
| "exact_difference NaN b = False"
| "exact_difference a PInf = False"
| "exact_difference a NInf = False"
| "exact_difference a NaN = False"

fun exact_steps :: "float list \<Rightarrow> bool" where
  "exact_steps (a # b # r) = (exact_difference a b \<and> exact_steps (b # r))"
| "exact_steps [a] = True"
| "exact_steps [] = True"

text \<open>
  A table on which every step of the interpolation can be followed exactly: not empty,
  strictly ascending in both fields, its reference values finite floats, and the
  difference from each reference value to the next computed without rounding. The
  built-in table is one.
\<close>

definition well_formed :: "CalibrationPoint list \<Rightarrow> bool" where
  "well_formed data \<longleftrightarrow>
     data \<noteq> [] \<and> increasing_adc data \<and> increasing_lux data \<and>
     list_all (\<lambda>p. finite_float (lux p)) data \<and> exact_steps (map lux data)"

text \<open>
  The value the loop body computes between two points \<open>(a, e1)\<close> and \<open>(b, e2)\<close>, with
  the three roundings of line 148: of the quotient, of the product and of the sum.
\<close>

definition seg_val :: "rat \<Rightarrow> rat \<Rightarrow> int \<Rightarrow> int \<Rightarrow> int \<Rightarrow> rat" where
  "seg_val e1 e2 a b D =
     round_fin (e1 + round_fin ((e2 - e1) * round_fin (of_int (D - a) / of_int (b - a))))"

subsection \<open>Test data\<close>


text \<open>A log entry as the command \<open>B\<close> builds it, numbered by its time stamp.\<close>

definition sample_entry :: "nat \<Rightarrow> LogEntry" where
  "sample_entry n =
     \<lparr>entry_lux = 0x43160000, timestamp = of_nat n,
      label = map (of_nat \<circ> of_char) ''Manual_Log''\<rparr>"

text \<open>
  A key held for 150 ms: the keypad reports \<open>5\<close> at the polls of 0, 50, 100 and 150 ms
  and nothing afterwards.
\<close>

definition short_press :: "timed_poll list" where
  "short_press =
     [\<lparr>reported = 0x35, t_poll = 50, t_accept = 50, t_check = 50\<rparr>,
      \<lparr>reported = 0x35, t_poll = 100, t_accept = 100, t_check = 100\<rparr>,
      \<lparr>reported = 0x35, t_poll = 150, t_accept = 150, t_check = 150\<rparr>,
      \<lparr>reported = 0, t_poll = 200, t_accept = 200, t_check = 200\<rparr>,
      \<lparr>reported = 0, t_poll = 250, t_accept = 250, t_check = 250\<rparr>]"

section \<open>Properties\<close>

declare scan.simps [simp del]

declare ilog2.simps [simp del]

subsection \<open>Clamping and the scan of the table\<close>

lemma increasing_adc_nth:
  "increasing_adc data \<Longrightarrow> i < j \<Longrightarrow> j < length data \<Longrightarrow>
   sint (adc (data ! i)) < sint (adc (data ! j))"
  by (simp add: increasing_adc_def sorted_wrt_iff_nth_less)

lemma scan_finds:
  assumes "increasing_adc data"
      and "i + 1 < length data"
      and "sint (adc (data ! i)) \<le> sint D"
      and "sint D < sint (adc (data ! (length data - 1)))"
  shows "\<exists>j. i \<le> j \<and> j + 1 < length data \<and>
             sint (adc (data ! j)) \<le> sint D \<and> sint D \<le> sint (adc (data ! (j + 1))) \<and>
             (i < j \<longrightarrow> sint (adc (data ! j)) < sint D) \<and>
             scan D data i = (Segment j, interpolate D (data ! j) (data ! (j + 1)))"
  using assms
proof (induction D data i rule: scan.induct)
  case (1 D data i)
  show ?case
  proof (cases "sint D \<le> sint (adc (data ! (i + 1)))")
    case True
    with "1.prems" have "scan D data i = (Segment i, interpolate D (data ! i) (data ! (i + 1)))"
      by (simp add: scan.simps [of D data i])
    with True "1.prems" show ?thesis by blast
  next
    case False
    then have lt: "sint (adc (data ! (i + 1))) < sint D" by simp
    have more: "i + 1 + 1 < length data"
    proof (rule ccontr)
      assume "\<not> i + 1 + 1 < length data"
      with "1.prems"(2) have "i + 1 = length data - 1" by simp
      with lt "1.prems"(4) show False by simp
    qed
    from "1.IH" [OF "1.prems"(2) _ "1.prems"(1) more _ "1.prems"(4)] False lt
    obtain j where j: "i + 1 \<le> j" "j + 1 < length data"
      "sint (adc (data ! j)) \<le> sint D" "sint D \<le> sint (adc (data ! (j + 1)))"
      "i + 1 < j \<longrightarrow> sint (adc (data ! j)) < sint D"
      "scan D data (i + 1) = (Segment j, interpolate D (data ! j) (data ! (j + 1)))"
      by auto
    have "scan D data i = scan D data (i + 1)"
      using False "1.prems"(2) by (simp add: scan.simps [of D data i])
    moreover have "sint (adc (data ! j)) < sint D"
      using j(1,5) lt by (cases "j = i + 1") auto
    ultimately show ?thesis using j by (intro exI [of _ j]) auto
  qed
qed

text \<open>
  Claim C5. On a table with at least one point, a raw input at or below the first
  point's raw sample yields exactly the first point's reference value.
\<close>

theorem clamp_low:
  assumes "data \<noteq> []" and "sint D \<le> sint (adc (data ! 0))"
  shows "calculateLuxFromADC D data = lux (data ! 0)"
  using assms by (simp add: calculateLuxFromADC_def calculateLuxFromADC_branch_def)

text \<open>
  Claim C6. In a calibration table (non-empty, strictly ascending raw samples), a raw
  input at or above the last point's raw sample yields exactly the last point's
  reference value.
\<close>

theorem clamp_high:
  assumes "data \<noteq> []" and "increasing_adc data"
      and "sint (adc (data ! (length data - 1))) \<le> sint D"
  shows "calculateLuxFromADC D data = lux (data ! (length data - 1))"
proof (cases "length data = 1")
  case True
  with assms show ?thesis
    by (simp add: calculateLuxFromADC_def calculateLuxFromADC_branch_def)
next
  case False
  with assms(1) have "0 < length data - 1" "length data - 1 < length data"
    by (cases data; simp)+
  from increasing_adc_nth [OF assms(2) this] assms(3)
  have "\<not> sint D \<le> sint (adc (data ! 0))" by simp
  with assms(3) show ?thesis
    by (simp add: calculateLuxFromADC_def calculateLuxFromADC_branch_def)
qed

text \<open>
  Claim C10. On a table of at least two points with strictly ascending raw samples the
  fallback \<open>return 0.0\<close> is never reached, whatever the input; and an input strictly
  between the first and the last raw sample is answered by the loop, from an adjacent
  pair \<open>(i, i + 1)\<close> that encloses it.
\<close>

theorem never_fallback:
  assumes "2 \<le> length data" and "increasing_adc data"
  shows "fst (calculateLuxFromADC_branch D data) \<noteq> Fallback \<and>
         (sint (adc (data ! 0)) < sint D \<and> sint D < sint (adc (data ! (length data - 1))) \<longrightarrow>
          (\<exists>i. i + 1 < length data \<and>
                sint (adc (data ! i)) \<le> sint D \<and> sint D \<le> sint (adc (data ! (i + 1))) \<and>
                calculateLuxFromADC_branch D data =
                  (Segment i, interpolate D (data ! i) (data ! (i + 1)))))"
proof (cases "sint (adc (data ! 0)) < sint D \<and> sint D < sint (adc (data ! (length data - 1)))")
  case True
  with scan_finds [of data 0 D] assms
  obtain j where "j + 1 < length data" "sint (adc (data ! j)) \<le> sint D"
    "sint D \<le> sint (adc (data ! (j + 1)))"
    "scan D data 0 = (Segment j, interpolate D (data ! j) (data ! (j + 1)))"
    by auto
  moreover from True have "calculateLuxFromADC_branch D data = scan D data 0"
    by (simp add: calculateLuxFromADC_branch_def)
  ultimately show ?thesis by auto
next
  case False
  then show ?thesis
    by (auto simp: calculateLuxFromADC_branch_def)
qed

theorem clamp_low_witness:
  "CalibrationData \<noteq> [] \<and> sint (100 :: 16 word) \<le> sint (adc (CalibrationData ! 0)) \<and>
   calculateLuxFromADC 100 CalibrationData = lux (CalibrationData ! 0)"
proof -
  have n: "CalibrationData \<noteq> []"
    by (simp add: CalibrationData_def)
  have h: "sint (100 :: 16 word) \<le> sint (adc (CalibrationData ! 0))"
    by (simp add: CalibrationData_def)
  from n h clamp_low [OF n h] show ?thesis by blast
qed

theorem clamp_high_witness:
  "CalibrationData \<noteq> [] \<and> increasing_adc CalibrationData \<and>
   sint (adc (CalibrationData ! (length CalibrationData - 1))) \<le> sint (1023 :: 16 word) \<and>
   calculateLuxFromADC 1023 CalibrationData =
     lux (CalibrationData ! (length CalibrationData - 1))"
proof -
  have h1: "CalibrationData \<noteq> []"
    by (simp add: CalibrationData_def)
  have h2: "increasing_adc CalibrationData"
    by (simp add: increasing_adc_def CalibrationData_def)
  have h3: "sint (adc (CalibrationData ! (length CalibrationData - 1))) \<le> sint (1023 :: 16 word)"
    by (simp add: CalibrationData_def)
  from h1 h2 h3 clamp_high [OF h1 h2 h3] show ?thesis by blast
qed

theorem never_fallback_witness:
  "2 \<le> length CalibrationData \<and> increasing_adc CalibrationData \<and>
   sint (adc (CalibrationData ! 0)) < sint (650 :: 16 word) \<and>
   sint (650 :: 16 word) < sint (adc (CalibrationData ! (length CalibrationData - 1))) \<and>
   fst (calculateLuxFromADC_branch 650 CalibrationData) \<noteq> Fallback \<and>
   (\<exists>i. i + 1 < length CalibrationData \<and>
        sint (adc (CalibrationData ! i)) \<le> sint (650 :: 16 word) \<and>
        sint (650 :: 16 word) \<le> sint (adc (CalibrationData ! (i + 1))) \<and>
        calculateLuxFromADC_branch 650 CalibrationData =
          (Segment i, interpolate 650 (CalibrationData ! i) (CalibrationData ! (i + 1))))"
proof -
  have h1: "2 \<le> length CalibrationData"
    by (simp add: CalibrationData_def)
  have h2: "increasing_adc CalibrationData"
    by (simp add: increasing_adc_def CalibrationData_def)
  have h3: "sint (adc (CalibrationData ! 0)) < sint (650 :: 16 word) \<and>
            sint (650 :: 16 word) < sint (adc (CalibrationData ! (length CalibrationData - 1)))"
    by (simp add: CalibrationData_def)
  from h1 h2 h3 never_fallback [OF h1 h2, of 650] show ?thesis by blast
qed

subsection \<open>Rounding: exponent, monotonicity, exact cases\<close>

lemma ilog2_bounds: "0 < n \<Longrightarrow> 2 ^ ilog2 n \<le> n \<and> n < 2 ^ Suc (ilog2 n)"
proof (induction n rule: ilog2.induct)
  case (1 n)
  show ?case
  proof (cases "n < 2")
    case True
    with "1.prems" show ?thesis by (simp add: ilog2.simps [of n])
  next
    case False
    then have pos: "0 < n div 2" by simp
    from "1.IH" [OF False pos]
    have lo: "2 ^ ilog2 (n div 2) \<le> n div 2" and hi: "n div 2 < 2 ^ Suc (ilog2 (n div 2))"
      by simp_all
    have eq: "ilog2 n = Suc (ilog2 (n div 2))"
      using False by (simp add: ilog2.simps [of n])
    have "2 * 2 ^ ilog2 (n div 2) \<le> n"
      using lo by linarith
    moreover have "n < 2 * 2 ^ Suc (ilog2 (n div 2))"
      using hi by linarith
    ultimately show ?thesis by (simp add: eq)
  qed
qed

lemma expo_bounds:
  assumes "0 < a"
  shows "2 powi expo a \<le> a \<and> a < 2 powi (expo a + 1)"
proof (cases "1 \<le> a")
  case True
  define m where "m = nat \<lfloor>a\<rfloor>"
  have fl1: "1 \<le> \<lfloor>a\<rfloor>" using True by simp
  then have m: "0 < m" "int m = \<lfloor>a\<rfloor>" by (simp_all add: m_def)
  from ilog2_bounds [OF m(1)] have lo: "2 ^ ilog2 m \<le> m" and hi: "m + 1 \<le> 2 ^ Suc (ilog2 m)"
    by simp_all
  have e: "expo a = int (ilog2 m)"
    using True by (simp add: expo_def m_def)
  have "(2::rat) ^ ilog2 m \<le> of_nat m"
    using lo by (metis of_nat_le_iff of_nat_numeral of_nat_power)
  also have "\<dots> = of_int \<lfloor>a\<rfloor>" using m(2) by (metis of_int_of_nat_eq)
  also have "\<dots> \<le> a" by simp
  finally have 1: "2 powi expo a \<le> a" by (simp add: e)
  have "a < of_int \<lfloor>a\<rfloor> + 1" by linarith
  also have "\<dots> = of_nat (m + 1)"
  proof -
    have "(of_nat m :: rat) = of_int \<lfloor>a\<rfloor>" using m(2) by (metis of_int_of_nat_eq)
    then show ?thesis by simp
  qed
  also have "\<dots> \<le> (2::rat) ^ Suc (ilog2 m)"
    using hi by (metis of_nat_le_iff of_nat_numeral of_nat_power)
  finally have 2: "a < 2 powi (expo a + 1)"
    by (simp add: e power_int_add)
  from 1 2 show ?thesis ..
next
  case False
  define c where "c = \<lceil>1 / a\<rceil>"
  define m where "m = nat (c - 1)"
  from False assms have inv: "1 < 1 / a" by simp
  then have c2: "2 \<le> c" unfolding c_def by linarith
  then have m: "0 < m" "int m = c - 1" by (simp_all add: m_def)
  from ilog2_bounds [OF m(1)] have lo: "2 ^ ilog2 m \<le> m" and hi: "m + 1 \<le> 2 ^ Suc (ilog2 m)"
    by simp_all
  have e: "expo a = - int (ilog2 m) - 1"
    using False by (simp add: expo_def m_def c_def)
  have "(2::rat) ^ ilog2 m \<le> of_nat m"
    using lo by (metis of_nat_le_iff of_nat_numeral of_nat_power)
  also have "\<dots> = of_int (c - 1)" using m(2) by (metis of_int_of_nat_eq)
  also have "\<dots> < 1 / a" unfolding c_def by linarith
  finally have "a * 2 ^ ilog2 m < 1"
    using assms by (simp add: field_simps)
  then have 2: "a < 2 powi (expo a + 1)"
    by (simp add: e power_int_minus field_simps)
  have "1 / a \<le> of_int c" unfolding c_def by linarith
  also have "\<dots> = of_nat (m + 1)"
  proof -
    have "(of_nat m :: rat) = of_int (c - 1)" using m(2) by (metis of_int_of_nat_eq)
    then show ?thesis by simp
  qed
  also have "\<dots> \<le> (2::rat) ^ Suc (ilog2 m)"
    using hi by (metis of_nat_le_iff of_nat_numeral of_nat_power)
  finally have "1 \<le> a * 2 ^ Suc (ilog2 m)"
    using assms by (simp add: field_simps)
  moreover have "expo a = - int (Suc (ilog2 m))" by (simp add: e)
  ultimately have 1: "2 powi expo a \<le> a"
    by (simp only: power_int_minus power_int_of_nat) (simp add: field_simps)
  from 1 2 show ?thesis ..
qed

lemma rne_of_int [simp]: "rne (of_int k) = k"
  by (simp add: rne_def)

lemma rne_cases: "rne q = \<lfloor>q\<rfloor> \<or> rne q = \<lfloor>q\<rfloor> + 1"
  by (simp add: rne_def Let_def)

lemma rne_mono:
  assumes "q \<le> q'"
  shows "rne q \<le> rne q'"
proof (cases "\<lfloor>q\<rfloor> = \<lfloor>q'\<rfloor>")
  case True
  with assms have "q - of_int \<lfloor>q\<rfloor> \<le> q' - of_int \<lfloor>q'\<rfloor>" by simp
  with True show ?thesis
    by (auto simp: rne_def Let_def)
next
  case False
  with assms have "\<lfloor>q\<rfloor> + 1 \<le> \<lfloor>q'\<rfloor>"
    using floor_mono [OF assms] by linarith
  with rne_cases [of q] rne_cases [of q'] show ?thesis by linarith
qed

lemma rne_neg: "rne (- q) = - rne q"
proof (cases "q \<in> \<int>")
  case True
  then obtain k where "q = of_int k" by (auto elim: Ints_cases)
  then show ?thesis
    by (metis of_int_minus rne_of_int)
next
  case False
  then have "q \<noteq> of_int \<lfloor>q\<rfloor>"
    by (metis Ints_of_int)
  then have fl: "\<lfloor>- q\<rfloor> = - \<lfloor>q\<rfloor> - 1"
    by (simp add: floor_minus ceiling_altdef)
  show ?thesis
    unfolding rne_def Let_def fl by (auto simp: field_simps)
qed

lemma qexp_neg [simp]: "qexp (- x) = qexp x"
  by (simp add: qexp_def)

lemma round_fin_0 [simp]: "round_fin 0 = 0"
  by (simp add: round_fin_def)

lemma round_fin_neg: "round_fin (- x) = - round_fin x"
  by (simp add: round_fin_def rne_neg)

lemma round_fin_nonneg:
  assumes "0 \<le> x"
  shows "0 \<le> round_fin x"
proof -
  have "0 \<le> x / 2 powi qexp x"
    using assms by simp
  from rne_mono [OF this] have "0 \<le> rne (x / 2 powi qexp x)"
    by (metis of_int_0 rne_of_int)
  then show ?thesis
    by (simp add: round_fin_def)
qed

lemma expo_mono:
  assumes "0 < a" and "a \<le> b"
  shows "expo a \<le> expo b"
proof (rule ccontr)
  assume "\<not> expo a \<le> expo b"
  then have "expo b + 1 \<le> expo a" by simp
  then have "(2::rat) powi (expo b + 1) \<le> 2 powi expo a"
    by (intro power_int_increasing) simp_all
  moreover have "2 powi expo a \<le> a" using expo_bounds [OF assms(1)] by simp
  moreover have "b < 2 powi (expo b + 1)" using expo_bounds [of b] assms by simp
  ultimately show False using assms(2) by linarith
qed

lemma round_fin_exact:
  assumes "x / 2 powi qexp x = of_int k"
  shows "round_fin x = x"
proof -
  have "(2::rat) powi qexp x \<noteq> 0" by simp
  with assms have "of_int k * 2 powi qexp x = x"
    by (simp add: field_simps)
  then show ?thesis
    by (simp add: round_fin_def assms)
qed

lemma round_fin_mono_pos:
  assumes "0 < x" and "x \<le> y"
  shows "round_fin x \<le> round_fin y"
proof -
  from assms have y: "0 < y" by simp
  have ex: "expo x \<le> expo y" by (rule expo_mono [OF assms])
  have ux: "(0::rat) < 2 powi qexp x" and uy: "(0::rat) < 2 powi qexp y" by simp_all
  have rx: "round_fin x = of_int (rne (x / 2 powi qexp x)) * 2 powi qexp x"
    using assms(1) by (simp add: round_fin_def)
  have ry: "round_fin y = of_int (rne (y / 2 powi qexp y)) * 2 powi qexp y"
    using y by (simp add: round_fin_def)
  have qle: "qexp x \<le> qexp y"
    using ex assms(1) y by (simp add: qexp_def)
  show ?thesis
  proof (cases "qexp x = qexp y")
    case True
    have "x / 2 powi qexp y \<le> y / 2 powi qexp y"
      using assms(2) uy by (simp add: divide_right_mono)
    from rne_mono [OF this] have "rne (x / 2 powi qexp y) \<le> rne (y / 2 powi qexp y)" .
    then have "(of_int (rne (x / 2 powi qexp y)) :: rat) \<le> of_int (rne (y / 2 powi qexp y))"
      by simp
    then show ?thesis
      unfolding rx ry True using uy by (simp add: mult_right_mono)
  next
    case False
    with qle have lt: "qexp x < qexp y" by simp
    then have qy: "qexp y = expo y - 23" and lt': "max (expo x) (- 126) < expo y"
      using assms(1) y by (auto simp: qexp_def max_def split: if_splits)
    define B :: rat where "B = 2 powi expo y"
    \<comment> \<open>the larger value rounds to at least the power of two below it\<close>
    have "B \<le> y" using expo_bounds [OF y] by (simp add: B_def)
    then have "B / 2 powi qexp y \<le> y / 2 powi qexp y"
      using uy by (simp add: divide_right_mono)
    moreover have "B / 2 powi qexp y = of_int (2 ^ 23)"
    proof -
      have "B / 2 powi qexp y = (2::rat) powi (expo y - qexp y)"
        unfolding B_def by (simp add: power_int_diff)
      also have "expo y - qexp y = 23" by (simp add: qy)
      finally show ?thesis by simp
    qed
    ultimately have "of_int (2 ^ 23) \<le> y / 2 powi qexp y" by simp
    from rne_mono [OF this] have "2 ^ 23 \<le> rne (y / 2 powi qexp y)"
      by (simp only: rne_of_int)
    then have "(of_int (2 ^ 23) :: rat) \<le> of_int (rne (y / 2 powi qexp y))"
      by (simp only: of_int_le_iff)
    then have "of_int (2 ^ 23) * 2 powi qexp y \<le> round_fin y"
      unfolding ry using uy by (intro mult_right_mono) simp_all
    moreover have "of_int (2 ^ 23) * 2 powi qexp y = B"
    proof -
      have "(2::rat) powi 23 * 2 powi qexp y = 2 powi (23 + qexp y)"
        by (simp add: power_int_add)
      also have "23 + qexp y = expo y" by (simp add: qy)
      finally show ?thesis by (simp add: B_def)
    qed
    ultimately have hi: "B \<le> round_fin y" by simp
    \<comment> \<open>the smaller value rounds to at most that power of two\<close>
    define d where "d = nat (expo y - qexp x)"
    have dpos: "0 \<le> expo y - qexp x"
      using lt' assms(1) by (simp add: qexp_def max_def split: if_splits)
    have Bx: "B / 2 powi qexp x = of_int (2 ^ d)"
    proof -
      have "B / 2 powi qexp x = (2::rat) powi (expo y - qexp x)"
        unfolding B_def by (simp add: power_int_diff)
      also have "\<dots> = 2 ^ d"
        using dpos by (simp add: d_def power_int_nonneg_exp)
      finally show ?thesis by simp
    qed
    have "x < 2 powi (expo x + 1)" using expo_bounds [OF assms(1)] by simp
    also have "\<dots> \<le> B"
      unfolding B_def using lt' by (intro power_int_increasing) simp_all
    finally have "x / 2 powi qexp x \<le> B / 2 powi qexp x"
      using ux by (simp add: divide_right_mono)
    then have "x / 2 powi qexp x \<le> of_int (2 ^ d)" by (simp only: Bx)
    from rne_mono [OF this] have "rne (x / 2 powi qexp x) \<le> 2 ^ d"
      by (simp only: rne_of_int)
    then have "(of_int (rne (x / 2 powi qexp x)) :: rat) \<le> of_int (2 ^ d)"
      by (simp only: of_int_le_iff)
    then have "round_fin x \<le> of_int (2 ^ d) * 2 powi qexp x"
      unfolding rx using ux by (intro mult_right_mono) simp_all
    also have "\<dots> = B"
      using Bx ux by (simp add: field_simps)
    finally have lo: "round_fin x \<le> B" .
    from lo hi show ?thesis by linarith
  qed
qed

lemma round_fin_mono:
  assumes "x \<le> y"
  shows "round_fin x \<le> round_fin y"
proof -
  consider "0 < x" | "x \<le> 0" "0 \<le> y" | "y < 0"
    using assms by linarith
  then show ?thesis
  proof cases
    case 1
    then show ?thesis by (rule round_fin_mono_pos [OF _ assms])
  next
    case 2
    have "0 \<le> round_fin (- x)" using 2(1) by (intro round_fin_nonneg) simp
    then have "round_fin x \<le> 0" by (simp add: round_fin_neg)
    with round_fin_nonneg [OF 2(2)] show ?thesis by linarith
  next
    case 3
    then have "0 < - y" "- y \<le> - x" using assms by simp_all
    from round_fin_mono_pos [OF this] show ?thesis by (simp add: round_fin_neg)
  qed
qed

lemma round_fin_int_pos:
  assumes "0 < n" and "n < 2 ^ 24"
  shows "round_fin (of_int n) = of_int n"
proof -
  let ?a = "of_int n :: rat"
  have a: "0 < ?a" using assms(1) by simp
  have "2 powi expo ?a \<le> ?a" using expo_bounds [OF a] by simp
  also have "?a < of_int (2 ^ 24)" using assms(2) by (simp only: of_int_less_iff)
  finally have "(2::rat) powi expo ?a < 2 powi 24" by simp
  then have "expo ?a < 24"
    by (intro power_int_le_imp_less_exp [of "2::rat"]) simp_all
  then have q: "qexp ?a \<le> 0"
    using a by (simp add: qexp_def)
  define d where "d = nat (- qexp ?a)"
  have "(2::rat) powi qexp ?a = 1 / 2 ^ d"
  proof -
    have "qexp ?a = - int d" using q by (simp add: d_def)
    then show ?thesis by (simp only: power_int_minus power_int_of_nat) (simp add: field_simps)
  qed
  then have "?a / 2 powi qexp ?a = of_int (n * 2 ^ d)"
    by simp
  then show ?thesis by (rule round_fin_exact)
qed

lemma round_fin_int:
  assumes "\<bar>n\<bar> < 2 ^ 24"
  shows "round_fin (of_int n) = of_int n"
proof -
  consider "0 < n" | "n = 0" | "n < 0" by linarith
  then show ?thesis
  proof cases
    case 1
    with assms show ?thesis by (intro round_fin_int_pos) simp_all
  next
    case 2
    then show ?thesis by simp
  next
    case 3
    with assms have "round_fin (of_int (- n)) = of_int (- n)"
      by (intro round_fin_int_pos) simp_all
    then show ?thesis by (simp add: round_fin_neg)
  qed
qed

lemma fl_Fin:
  assumes "\<bar>round_fin x\<bar> < 2 ^ 128"
  shows "fl x = Fin (round_fin x)"
proof -
  from assms have "\<not> 2 ^ 128 \<le> round_fin x" "\<not> round_fin x \<le> - (2 ^ 128)"
    by linarith+
  then show ?thesis
    by (simp add: fl_def Let_def)
qed

lemma fl_eq_FinD:
  assumes "fl x = Fin y"
  shows "round_fin x = y \<and> \<bar>y\<bar> < 2 ^ 128"
  using assms by (auto simp: fl_def Let_def split: if_splits)

lemma fl_int:
  assumes "\<bar>n\<bar> < 2 ^ 24"
  shows "fl (of_int n) = Fin (of_int n)"
proof -
  have "\<bar>of_int n :: rat\<bar> < of_int (2 ^ 24)"
    using assms by (simp only: of_int_abs [symmetric] of_int_less_iff)
  then have "\<bar>of_int n :: rat\<bar> < 2 ^ 128" by simp
  then show ?thesis
    using fl_Fin [of "of_int n"] by (simp add: round_fin_int [OF assms])
qed

lemma fl_0 [simp]: "fl 0 = Fin 0"
  using fl_int [of 0] by simp

lemma fl_1 [simp]: "fl 1 = Fin 1"
  using fl_int [of 1] by simp

lemma fl_numeral: "numeral k < (16777216 :: int) \<Longrightarrow> fl (numeral k) = Fin (numeral k)"
  using fl_int [of "numeral k"] by simp

lemma fl_neg_numeral:
  "numeral k < (16777216 :: int) \<Longrightarrow> fl (- numeral k) = Fin (- numeral k)"
  using fl_int [of "- numeral k"] by simp

lemma sint_16_bound: "\<bar>sint (n :: 16 word)\<bar> \<le> 2 ^ 15"
  using sint_range_size [of n] by (simp add: word_size abs_le_iff)

lemma float_of_int_exact: "float_of_int n = Fin (of_int (sint n))"
proof -
  have "\<bar>sint n\<bar> < 2 ^ 24" using sint_16_bound [of n] by simp
  then show ?thesis unfolding float_of_int_def by (rule fl_int)
qed

lemma fsub_ints:
  "fsub (float_of_int m) (float_of_int n) = Fin (of_int (sint m - sint n))"
proof -
  have "\<bar>sint m - sint n\<bar> < 2 ^ 24"
    using sint_16_bound [of m] sint_16_bound [of n] by simp
  from fl_int [OF this] show ?thesis
    by (simp add: float_of_int_exact fsub_def)
qed





subsection \<open>The value of the interpolation\<close>

lemma seg_val_mono:
  assumes "e1 \<le> e2" and "a < b" and "D \<le> D'"
  shows "seg_val e1 e2 a b D \<le> seg_val e1 e2 a b D'"
proof -
  have "(of_int (D - a) :: rat) / of_int (b - a) \<le> of_int (D' - a) / of_int (b - a)"
    using assms(2,3) by (intro divide_right_mono) simp_all
  then have "round_fin (of_int (D - a) / of_int (b - a))
               \<le> round_fin (of_int (D' - a) / of_int (b - a))"
    by (rule round_fin_mono)
  then have "(e2 - e1) * round_fin (of_int (D - a) / of_int (b - a))
               \<le> (e2 - e1) * round_fin (of_int (D' - a) / of_int (b - a))"
    using assms(1) by (intro mult_left_mono) simp_all
  then show ?thesis
    unfolding seg_val_def by (intro round_fin_mono add_left_mono)
qed

lemma seg_val_at_b:
  assumes "a < b" and "round_fin (e2 - e1) = e2 - e1" and "round_fin e2 = e2"
  shows "seg_val e1 e2 a b b = e2"
proof -
  have "(of_int (b - a) :: rat) / of_int (b - a) = 1"
    using assms(1) by simp
  moreover have "round_fin 1 = 1"
    using round_fin_int [of 1] by simp
  ultimately show ?thesis
    by (simp add: seg_val_def assms)
qed

lemma seg_val_at_a:
  assumes "round_fin e1 = e1"
  shows "seg_val e1 e2 a b a = e1"
  by (simp add: seg_val_def assms)

lemma seg_val_bounds:
  assumes "e1 \<le> e2" and "a < b" and "a \<le> D" and "D \<le> b"
      and "round_fin (e2 - e1) = e2 - e1" and "round_fin e1 = e1" and "round_fin e2 = e2"
  shows "e1 \<le> seg_val e1 e2 a b D \<and> seg_val e1 e2 a b D \<le> e2"
  using seg_val_mono [OF assms(1,2,3)] seg_val_mono [OF assms(1,2,4)]
        seg_val_at_a [OF assms(6), of e2 a b] seg_val_at_b [OF assms(2,5,7)]
  by simp

lemma interpolate_value:
  assumes p: "lux p = Fin e1" and q: "lux q = Fin e2"
      and f1: "fl e1 = Fin e1" and f2: "fl e2 = Fin e2"
      and d: "fsub (Fin e2) (Fin e1) = Fin (e2 - e1)"
      and le: "e1 \<le> e2" and ab: "sint (adc p) < sint (adc q)"
      and lo: "sint (adc p) \<le> sint D" and hi: "sint D \<le> sint (adc q)"
  shows "interpolate D p q = Fin (seg_val e1 e2 (sint (adc p)) (sint (adc q)) (sint D))"
proof -
  define a b c where "a = sint (adc p)" and "b = sint (adc q)" and "c = sint D"
  have ab': "a < b" and lo': "a \<le> c" and hi': "c \<le> b"
    using ab lo hi by (simp_all add: a_def b_def c_def)
  have I: "interpolate D p q =
             fadd (Fin e1) (fmul (Fin (e2 - e1))
               (fdiv (Fin (of_int (c - a))) (Fin (of_int (b - a)))))"
    unfolding interpolate_def Let_def p q fsub_ints d a_def b_def c_def ..
  note r1 = fl_eq_FinD [OF f1] and r2 = fl_eq_FinD [OF f2]
  from d have "fl (e2 - e1) = Fin (e2 - e1)" by (simp add: fsub_def)
  note rd = fl_eq_FinD [OF this]
  have bnd: "e1 \<le> seg_val e1 e2 a b c \<and> seg_val e1 e2 a b c \<le> e2"
    using seg_val_bounds [OF le ab' lo' hi'] rd r1 r2 by simp
  define t where "t = round_fin (of_int (c - a) / of_int (b - a))"
  have t0: "0 \<le> t"
    unfolding t_def using lo' ab' by (intro round_fin_nonneg) simp
  have "t \<le> round_fin 1"
    unfolding t_def using lo' hi' ab' by (intro round_fin_mono) simp
  then have t1: "t \<le> 1" using round_fin_int [of 1] by simp
  have nz: "(of_int (b - a) :: rat) \<noteq> 0" using ab' by simp
  have "\<bar>t\<bar> < 2 ^ 128" using t0 t1 by simp
  then have ft: "fl (of_int (c - a) / of_int (b - a)) = Fin t"
    unfolding t_def by (rule fl_Fin)
  define m where "m = round_fin ((e2 - e1) * t)"
  have m0: "0 \<le> m"
    unfolding m_def using le t0 by (intro round_fin_nonneg) simp
  have "(e2 - e1) * t \<le> (e2 - e1) * 1"
    using le t1 by (intro mult_left_mono) simp_all
  then have "m \<le> round_fin (e2 - e1)"
    unfolding m_def by (intro round_fin_mono) simp
  then have m1: "m \<le> e2 - e1" using rd by simp
  have "\<bar>m\<bar> < 2 ^ 128" using m0 m1 rd by (auto simp: abs_less_iff)
  then have fm: "fl ((e2 - e1) * t) = Fin m"
    unfolding m_def by (rule fl_Fin)
  have sv: "seg_val e1 e2 a b c = round_fin (e1 + m)"
    by (simp add: seg_val_def m_def t_def)
  have "\<bar>round_fin (e1 + m)\<bar> < 2 ^ 128"
    using bnd r1 r2 unfolding sv by (auto simp: abs_less_iff)
  then have fa: "fl (e1 + m) = Fin (round_fin (e1 + m))"
    by (rule fl_Fin)
  have "fdiv (Fin (of_int (c - a))) (Fin (of_int (b - a))) = Fin t"
    using nz ft by (simp only: fdiv.simps if_False)
  then have "interpolate D p q = Fin (seg_val e1 e2 a b c)"
    unfolding I by (simp only: fmul.simps fadd.simps fm fa sv)
  then show ?thesis
    by (simp only: a_def b_def c_def)
qed

lemma finite_floatD:
  assumes "finite_float f"
  shows "f = Fin (val f) \<and> fl (val f) = Fin (val f)"
  using assms by (cases f) simp_all

lemma exact_differenceD:
  assumes "exact_difference f g"
  shows "fsub (Fin (val g)) (Fin (val f)) = Fin (val g - val f)"
  using assms by (cases f; cases g) simp_all

lemma exact_steps_nth:
  "exact_steps xs \<Longrightarrow> i + 1 < length xs \<Longrightarrow> exact_difference (xs ! i) (xs ! (i + 1))"
proof (induction xs arbitrary: i rule: exact_steps.induct)
  case (1 a b r)
  then show ?case by (cases i) simp_all
qed simp_all

lemma flt_val:
  assumes "finite_float f" and "finite_float g" and "flt f g"
  shows "val f < val g"
  using assms by (cases f; cases g) simp_all

lemma lux_mono:
  assumes "increasing_lux data" and "list_all (\<lambda>p. finite_float (lux p)) data"
      and "i \<le> j" and "j < length data"
  shows "val (lux (data ! i)) \<le> val (lux (data ! j))"
proof (cases "i = j")
  case True
  then show ?thesis by simp
next
  case False
  with assms(3) have "i < j" by simp
  with assms(1,4) have "flt (lux (data ! i)) (lux (data ! j))"
    by (simp add: increasing_lux_def sorted_wrt_iff_nth_less)
  moreover from assms(2,3,4) have "finite_float (lux (data ! i))" "finite_float (lux (data ! j))"
    by (simp_all add: list_all_length)
  ultimately show ?thesis using flt_val by fastforce
qed

text \<open>What the three branches return, on a well-formed table.\<close>

lemma segment_value:
  assumes fin: "list_all (\<lambda>p. finite_float (lux p)) data"
      and incl: "increasing_lux data" and inca: "increasing_adc data"
      and ex: "exact_steps (map lux data)"
      and i: "i + 1 < length data"
      and lo: "sint (adc (data ! i)) \<le> sint D" and hi: "sint D \<le> sint (adc (data ! (i + 1)))"
  shows "interpolate D (data ! i) (data ! (i + 1)) =
           Fin (seg_val (val (lux (data ! i))) (val (lux (data ! (i + 1))))
                  (sint (adc (data ! i))) (sint (adc (data ! (i + 1)))) (sint D))"
proof -
  from fin i have f: "finite_float (lux (data ! i))" "finite_float (lux (data ! (i + 1)))"
    by (simp_all add: list_all_length)
  note p = finite_floatD [OF f(1)] and q = finite_floatD [OF f(2)]
  from exact_steps_nth [OF ex, of i] i
  have "exact_difference (lux (data ! i)) (lux (data ! (i + 1)))" by simp
  note d = exact_differenceD [OF this]
  have le: "val (lux (data ! i)) \<le> val (lux (data ! (i + 1)))"
    using lux_mono [OF incl fin, of i "i + 1"] i by simp
  have ab: "sint (adc (data ! i)) < sint (adc (data ! (i + 1)))"
    using increasing_adc_nth [OF inca, of i "i + 1"] i by simp
  from p have p1: "lux (data ! i) = Fin (val (lux (data ! i)))"
    and p2: "fl (val (lux (data ! i))) = Fin (val (lux (data ! i)))" by simp_all
  from q have q1: "lux (data ! (i + 1)) = Fin (val (lux (data ! (i + 1))))"
    and q2: "fl (val (lux (data ! (i + 1)))) = Fin (val (lux (data ! (i + 1))))" by simp_all
  show ?thesis
    by (rule interpolate_value [OF p1 q1 p2 q2 d le ab lo hi])
qed

lemma calc_cases:
  assumes wf: "well_formed data"
  obtains
    (low) "sint D \<le> sint (adc (data ! 0))"
          "calculateLuxFromADC D data = Fin (val (lux (data ! 0)))"
  | (high) "sint (adc (data ! 0)) < sint D" "sint (adc (data ! (length data - 1))) \<le> sint D"
          "calculateLuxFromADC D data = Fin (val (lux (data ! (length data - 1))))"
  | (seg) j where "j + 1 < length data"
          "sint (adc (data ! j)) \<le> sint D" "sint D \<le> sint (adc (data ! (j + 1)))"
          "0 < j \<longrightarrow> sint (adc (data ! j)) < sint D"
          "sint (adc (data ! 0)) < sint D"
          "calculateLuxFromADC D data =
             Fin (seg_val (val (lux (data ! j))) (val (lux (data ! (j + 1))))
                    (sint (adc (data ! j))) (sint (adc (data ! (j + 1)))) (sint D))"
proof -
  from wf have ne: "data \<noteq> []" and inca: "increasing_adc data"
    and incl: "increasing_lux data" and fin: "list_all (\<lambda>p. finite_float (lux p)) data"
    and ex: "exact_steps (map lux data)"
    by (simp_all add: well_formed_def)
  from ne have n: "0 < length data" by simp
  consider "sint D \<le> sint (adc (data ! 0))"
    | "sint (adc (data ! 0)) < sint D" "sint (adc (data ! (length data - 1))) \<le> sint D"
    | "sint (adc (data ! 0)) < sint D" "sint D < sint (adc (data ! (length data - 1)))"
    by linarith
  then show thesis
  proof cases
    case 1
    from fin n have "finite_float (lux (data ! 0))" by (simp add: list_all_length)
    from finite_floatD [OF this] 1 show thesis
      by (intro low) (simp_all add: calculateLuxFromADC_def calculateLuxFromADC_branch_def)
  next
    case 2
    from fin n have "finite_float (lux (data ! (length data - 1)))"
      by (simp add: list_all_length)
    from finite_floatD [OF this] 2 show thesis
      by (intro high) (simp_all add: calculateLuxFromADC_def calculateLuxFromADC_branch_def)
  next
    case 3
    have two: "0 + 1 < length data"
    proof (rule ccontr)
      assume "\<not> 0 + 1 < length data"
      with n have "length data - 1 = 0" by simp
      with 3 show False by simp
    qed
    from scan_finds [OF inca two _ 3(2)] 3(1)
    obtain j where j: "j + 1 < length data"
      "sint (adc (data ! j)) \<le> sint D" "sint D \<le> sint (adc (data ! (j + 1)))"
      "0 < j \<longrightarrow> sint (adc (data ! j)) < sint D"
      "scan D data 0 = (Segment j, interpolate D (data ! j) (data ! (j + 1)))"
      by auto
    have "calculateLuxFromADC D data = interpolate D (data ! j) (data ! (j + 1))"
      using 3 j(5) by (simp add: calculateLuxFromADC_def calculateLuxFromADC_branch_def)
    with segment_value [OF fin incl inca ex j(1,2,3)] j(1-4) 3(1) show thesis
      by (intro seg [of j]) simp_all
  qed
qed




lemma node_exact:
  assumes wf: "well_formed data" and k: "k < length data"
  shows "calculateLuxFromADC (adc (data ! k)) data = lux (data ! k)"
proof -
  from wf have inca: "increasing_adc data"
    and incl: "increasing_lux data" and fin: "list_all (\<lambda>p. finite_float (lux p)) data"
    and ex: "exact_steps (map lux data)"
    by (simp_all add: well_formed_def)
  from fin k have "finite_float (lux (data ! k))" by (simp add: list_all_length)
  note fk = finite_floatD [OF this]
  show ?thesis
  proof (cases rule: calc_cases [OF wf, of "adc (data ! k)", case_names low high seg])
    case low
    have "k = 0"
    proof (rule ccontr)
      assume "k \<noteq> 0"
      then have "0 < k" by simp
      from increasing_adc_nth [OF inca this k] low(1) show False by simp
    qed
    with low(2) fk show ?thesis by simp
  next
    case high
    have "k = length data - 1"
    proof (rule ccontr)
      assume "k \<noteq> length data - 1"
      with k have "k < length data - 1" "length data - 1 < length data" by simp_all
      from increasing_adc_nth [OF inca this] high(2) show False by simp
    qed
    with high(3) fk show ?thesis by simp
  next
    case (seg j)
    have "\<not> k < j"
      using increasing_adc_nth [OF inca, of k j] seg(1,2) by auto
    moreover have "\<not> j + 1 < k"
      using increasing_adc_nth [OF inca, of "j + 1" k] seg(3) k by auto
    moreover have "k \<noteq> j"
    proof
      assume "k = j"
      with seg(4,5) show False by (cases "j = 0") simp_all
    qed
    ultimately have kj: "k = j + 1" by linarith
    from fin seg(1) have "finite_float (lux (data ! (j + 1)))" by (simp add: list_all_length)
    from finite_floatD [OF this]
    have r2: "round_fin (val (lux (data ! (j + 1)))) = val (lux (data ! (j + 1)))"
      using fl_eq_FinD by blast
    from exact_steps_nth [OF ex, of j] seg(1)
    have "exact_difference (lux (data ! j)) (lux (data ! (j + 1)))" by simp
    from exact_differenceD [OF this]
    have "fl (val (lux (data ! (j + 1))) - val (lux (data ! j)))
            = Fin (val (lux (data ! (j + 1))) - val (lux (data ! j)))"
      by (simp add: fsub_def)
    from fl_eq_FinD [OF this]
    have rd: "round_fin (val (lux (data ! (j + 1))) - val (lux (data ! j)))
            = val (lux (data ! (j + 1))) - val (lux (data ! j))" by simp
    have ab: "sint (adc (data ! j)) < sint (adc (data ! (j + 1)))"
      using increasing_adc_nth [OF inca, of j "j + 1"] seg(1) by simp
    from seg(6) seg_val_at_b [OF ab rd r2] fk show ?thesis
      by (simp add: kj)
  qed
qed

subsection \<open>The built-in table, monotonicity and the self-test\<close>

lemma well_formed_CalibrationData: "well_formed CalibrationData"
  by (simp add: well_formed_def CalibrationData_def increasing_adc_def increasing_lux_def
      fsub_def fl_numeral)

lemma CalibrationData_nodes:
  "map (\<lambda>p. calculateLuxFromADC (adc p) CalibrationData) CalibrationData =
     map lux CalibrationData"
proof (rule nth_equalityI)
  show "length (map (\<lambda>p. calculateLuxFromADC (adc p) CalibrationData) CalibrationData) =
          length (map lux CalibrationData)" by simp
next
  fix i
  assume "i < length (map (\<lambda>p. calculateLuxFromADC (adc p) CalibrationData) CalibrationData)"
  then have "i < length CalibrationData" by simp
  with node_exact [OF well_formed_CalibrationData this] show
    "map (\<lambda>p. calculateLuxFromADC (adc p) CalibrationData) CalibrationData ! i =
       map lux CalibrationData ! i" by simp
qed

lemma self_test_rows:
  "rows printCalibrationTable =
     map (\<lambda>p. \<lparr>row_adc = adc p, referenceLux = lux p, measuredLux = lux p,
                error = Fin 0, relativeError = Fin 0\<rparr>) CalibrationData"
proof -
  have row: "self_test_row p =
      \<lparr>row_adc = adc p, referenceLux = lux p, measuredLux = lux p,
       error = Fin 0, relativeError = Fin 0\<rparr>" if "p \<in> set CalibrationData" for p
  proof -
    from that obtain i where i: "i < length CalibrationData" "p = CalibrationData ! i"
      by (metis in_set_conv_nth)
    from node_exact [OF well_formed_CalibrationData i(1)] i(2)
    have m: "calculateLuxFromADC (adc p) CalibrationData = lux p" by simp
    from that have "\<exists>e. lux p = Fin e \<and> e \<noteq> 0"
      by (auto simp: CalibrationData_def)
    then obtain e where e: "lux p = Fin e" "e \<noteq> 0" by blast
    show ?thesis
      by (simp add: self_test_row_def Let_def m e fsub_def)
  qed
  show ?thesis
    by (simp add: printCalibrationTable_def Let_def row cong: map_cong)
qed

text \<open>
  Claim C1. At the raw sample of every point of the built-in table
  \<open>calculateLuxFromADC\<close> returns the point's reference value, exactly; so every row of
  the self-test has error 0 and relative error 0, and the maximum relative error is 0.
\<close>

theorem self_test_passes_through_nodes:
  "map (\<lambda>p. calculateLuxFromADC (adc p) CalibrationData) CalibrationData =
     map lux CalibrationData \<and>
   map error (rows printCalibrationTable) = replicate CalibrationSize (Fin 0) \<and>
   map relativeError (rows printCalibrationTable) = replicate CalibrationSize (Fin 0) \<and>
   maxRelativeError printCalibrationTable = Fin 0"
proof -
  have "maxRelativeError printCalibrationTable =
          fst (foldl accumulate (Fin 0, Fin 0) (rows printCalibrationTable))"
    by (simp add: printCalibrationTable_def Let_def)
  also have "\<dots> = Fin 0"
    unfolding self_test_rows by (simp add: CalibrationData_def accumulate_def Let_def)
  finally have "maxRelativeError printCalibrationTable = Fin 0" .
  moreover have "map error (rows printCalibrationTable) = replicate CalibrationSize (Fin 0)"
    unfolding self_test_rows by (simp add: CalibrationSize_def CalibrationData_def)
  moreover have
    "map relativeError (rows printCalibrationTable) = replicate CalibrationSize (Fin 0)"
    unfolding self_test_rows by (simp add: CalibrationSize_def CalibrationData_def)
  ultimately show ?thesis
    using CalibrationData_nodes by simp
qed

text \<open>
  Claim C8. The accuracy class is the bucket of the absolute value of the maximum
  relative error: up to 1 it is 0.5, up to 2 it is 1.0, up to 5 it is 2.5, and 4.0
  otherwise, which includes an infinite error and a NaN; the self-test reports the
  class of the maximum it reports.
\<close>

theorem accuracy_class_buckets:
  "accuracyClass (Fin m) = spec_accuracy_class m \<and>
   accuracyClass PInf = ''4.0'' \<and> accuracyClass NInf = ''4.0'' \<and> accuracyClass NaN = ''4.0'' \<and>
   accuracy_class printCalibrationTable = accuracyClass (maxRelativeError printCalibrationTable)"
  by (simp add: accuracyClass_def spec_accuracy_class_def printCalibrationTable_def Let_def)





subsection \<open>The write cursor of the log\<close>

lemma length_object_bytes: "length (object_bytes e) = 29"
  by (simp add: object_bytes_def le_bytes_def)

lemma EEPROM_put_content:
  "unat idx + length bs < 65536 \<Longrightarrow>
   EEPROM_put mem idx bs =
     (\<lambda>a. if unat idx \<le> a \<and> a < unat idx + length bs then bs ! (a - unat idx) else mem a)"
proof (induction bs arbitrary: mem idx)
  case Nil
  show ?case by (rule ext) auto
next
  case (Cons b bs)
  from Cons.prems have lt: "unat idx < 65535"
    by simp
  then have u: "unat (idx + 1) = unat idx + 1"
    by (simp add: unat_word_ariths)
  with Cons.prems have "unat (idx + 1) + length bs < 65536"
    by simp
  from Cons.IH [OF this, of "mem(unat idx := b)"]
  have IH: "EEPROM_put (mem(unat idx := b)) (idx + 1) bs =
              (\<lambda>a. if unat idx + 1 \<le> a \<and> a < unat idx + 1 + length bs
                   then bs ! (a - (unat idx + 1)) else (mem(unat idx := b)) a)"
    unfolding u .
  show ?case
  proof (rule ext)
    fix a
    consider "a < unat idx" | "a = unat idx" | "unat idx < a"
      by linarith
    then show "EEPROM_put mem idx (b # bs) a =
                 (if unat idx \<le> a \<and> a < unat idx + length (b # bs)
                  then (b # bs) ! (a - unat idx) else mem a)"
    proof cases
      case 1
      then show ?thesis by (simp add: IH)
    next
      case 2
      then show ?thesis by (simp add: IH)
    next
      case 3
      then have "(b # bs) ! (a - unat idx) = bs ! (a - (unat idx + 1))"
        by (simp add: nth_Cons')
      with 3 show ?thesis by (simp add: IH)
    qed
  qed
qed

lemma vTaskLogger_snoc: "vTaskLogger (es @ [e]) = saveToEEPROM (vTaskLogger es) e"
  by (simp add: vTaskLogger_def)

lemma overflows_slot:
  assumes "unat a = 29 * k" and "k \<le> 35"
  shows "overflows a \<longleftrightarrow> k = 35"
proof -
  have "unat (a + 29) = 29 * k + 29"
    using assms by (simp add: unat_word_ariths)
  then show ?thesis
    using assms by (auto simp: overflows_def EEPROM_SIZE_def sizeof_LogEntry_def word_le_nat_alt)
qed

lemma fits_slot:
  assumes "unat a = 29 * k" and "k \<le> 35"
  shows "fits a \<longleftrightarrow> k \<noteq> 35"
  using assms by (auto simp: fits_def EEPROM_SIZE_def sizeof_LogEntry_def)

lemma step_cursor:
  assumes "unat (currentAddress s) = 29 * k" and "k \<le> 35"
  shows "unat (currentAddress (saveToEEPROM s e)) = (if k = 35 then 29 else 29 * (k + 1))"
proof -
  have "unat (currentAddress s + 29) = 29 * k + 29"
    using assms by (simp add: unat_word_ariths)
  with overflows_slot [OF assms] show ?thesis
    by (simp add: saveToEEPROM_def write_address_def sizeof_LogEntry_def Let_def)
qed

lemma cursor_aligned: "\<exists>k\<le>35. unat (currentAddress (vTaskLogger es)) = 29 * k"
proof (induction es rule: rev_induct)
  case Nil
  then show ?case by (simp add: vTaskLogger_def initial_state_def)
next
  case (snoc e es)
  then obtain k where k: "k \<le> 35" "unat (currentAddress (vTaskLogger es)) = 29 * k"
    by blast
  show ?case
  proof (cases "k = 35")
    case True
    with step_cursor [OF k(2) k(1), of e] have
      "unat (currentAddress (vTaskLogger (es @ [e]))) = 29 * 1"
      by (simp add: vTaskLogger_snoc)
    then show ?thesis by (intro exI [of _ 1]) simp
  next
    case False
    with step_cursor [OF k(2) k(1), of e] have
      "unat (currentAddress (vTaskLogger (es @ [e]))) = 29 * (k + 1)"
      by (simp add: vTaskLogger_snoc)
    with False k(1) show ?thesis by (intro exI [of _ "k + 1"]) simp
  qed
qed

lemma cursor_prefix:
  "length es \<le> 35 \<Longrightarrow> unat (currentAddress (vTaskLogger es)) = 29 * length es"
proof (induction es rule: rev_induct)
  case Nil
  then show ?case by (simp add: vTaskLogger_def initial_state_def)
next
  case (snoc e es)
  then have "unat (currentAddress (vTaskLogger es)) = 29 * length es" "length es < 35"
    by simp_all
  with step_cursor [of "vTaskLogger es" "length es" e] show ?case
    by (simp add: vTaskLogger_snoc)
qed

lemma write_in_bounds:
  assumes "unat (currentAddress s) = 29 * k" and "k \<le> 35"
  shows "unat (write_address s) = (if k = 35 then 0 else 29 * k)"
  using overflows_slot [OF assms] assms by (simp add: write_address_def)

lemma saveToEEPROM_store:
  assumes "unat (write_address s) + 29 \<le> 1024"
  shows "EEPROM (saveToEEPROM s e) =
          (\<lambda>a. if unat (write_address s) \<le> a \<and> a < unat (write_address s) + 29
               then object_bytes e ! (a - unat (write_address s)) else EEPROM s a)"
  using assms EEPROM_put_content [of "write_address s" "object_bytes e" "EEPROM s"]
  by (simp add: saveToEEPROM_def Let_def length_object_bytes)

lemma stored_after_save:
  assumes "unat (write_address s) + 29 \<le> 1024"
  shows "stored (saveToEEPROM s e) (unat (write_address s)) 29 = object_bytes e"
  by (rule nth_equalityI)
     (simp_all add: stored_def saveToEEPROM_store [OF assms] length_object_bytes)

lemma stored_untouched:
  assumes "unat (write_address s) + 29 \<le> 1024"
      and "a + n \<le> unat (write_address s) \<or> unat (write_address s) + 29 \<le> a"
  shows "stored (saveToEEPROM s e) a n = stored s a n"
  using assms(2) by (auto simp: stored_def saveToEEPROM_store [OF assms(1)])

lemma reachable_write_address:
  "unat (write_address (vTaskLogger es)) + 29 \<le> 1015 \<and>
   29 dvd unat (write_address (vTaskLogger es))"
proof -
  obtain k where k: "k \<le> 35" "unat (currentAddress (vTaskLogger es)) = 29 * k"
    using cursor_aligned by blast
  from write_in_bounds [OF k(2) k(1)] k(1) show ?thesis
    by (auto split: if_splits)
qed

lemma reachable_write_fits: "unat (write_address (vTaskLogger es)) + 29 \<le> 1024"
  using reachable_write_address [of es] by simp

text \<open>
  Claim C2. In every state the logger can reach, \<open>saveToEEPROM\<close> resets the cursor to 0
  exactly when the entry does not fit before the capacity boundary, and otherwise
  writes at the cursor; either way the bytes of the entry are in the store at the
  address written, and the cursor is that address plus \<open>sizeof(LogEntry)\<close>.
\<close>

theorem saveToEEPROM_resets_iff_no_fit:
  "(overflows (currentAddress (vTaskLogger es)) \<longleftrightarrow> \<not> fits (currentAddress (vTaskLogger es))) \<and>
   write_address (vTaskLogger es) =
     (if fits (currentAddress (vTaskLogger es)) then currentAddress (vTaskLogger es) else 0) \<and>
   stored (saveToEEPROM (vTaskLogger es) e) (unat (write_address (vTaskLogger es)))
      sizeof_LogEntry = object_bytes e \<and>
   currentAddress (saveToEEPROM (vTaskLogger es) e) =
     write_address (vTaskLogger es) + of_nat sizeof_LogEntry"
proof -
  obtain k where k: "k \<le> 35" "unat (currentAddress (vTaskLogger es)) = 29 * k"
    using cursor_aligned by blast
  have iff: "overflows (currentAddress (vTaskLogger es)) \<longleftrightarrow>
             \<not> fits (currentAddress (vTaskLogger es))"
    using overflows_slot [OF k(2) k(1)] fits_slot [OF k(2) k(1)] by simp
  moreover have "stored (saveToEEPROM (vTaskLogger es) e)
      (unat (write_address (vTaskLogger es))) sizeof_LogEntry = object_bytes e"
    using stored_after_save [OF reachable_write_fits] by (simp add: sizeof_LogEntry_def)
  ultimately show ?thesis
    by (simp add: write_address_def saveToEEPROM_def Let_def)
qed

lemma sint_small:
  fixes w :: "16 word"
  assumes "unat w < 2 ^ 15"
  shows "sint w = int (unat w)"
proof -
  have "unat w < 32768"
    using assms by simp
  then have "int (unat w) < 32768"
    by linarith
  then have "uint w < 32768"
    by (simp only: of_nat_unat)
  then have "uint w < 2 ^ 15"
    by simp
  then have "signed_take_bit 15 (uint w) = uint w"
    by (intro signed_take_bit_int_eq_self) (auto intro: order_trans [of _ 0])
  then have "sint w = uint w"
    by (simp add: sint_uint)
  then show ?thesis
    by (simp only: of_nat_unat)
qed

text \<open>
  Claim C9. After any sequence of calls from the initial state the cursor is a
  non-negative multiple of \<open>sizeof(LogEntry)\<close>. The next write starts at such a multiple
  and ends within the 1024 bytes of the store; it changes exactly the bytes of that
  record, and the cursor after it is the end of the record.
\<close>

theorem cursor_record_aligned:
  "sizeof_LogEntry dvd unat (currentAddress (vTaskLogger es)) \<and>
   0 \<le> sint (currentAddress (vTaskLogger es)) \<and>
   sint (currentAddress (vTaskLogger es)) = int (unat (currentAddress (vTaskLogger es))) \<and>
   sizeof_LogEntry dvd unat (write_address (vTaskLogger es)) \<and>
   unat (write_address (vTaskLogger es)) + sizeof_LogEntry \<le> EEPROM_SIZE \<and>
   EEPROM (saveToEEPROM (vTaskLogger es) e) =
     (\<lambda>a. if unat (write_address (vTaskLogger es)) \<le> a \<and>
              a < unat (write_address (vTaskLogger es)) + sizeof_LogEntry
           then object_bytes e ! (a - unat (write_address (vTaskLogger es)))
           else EEPROM (vTaskLogger es) a) \<and>
   currentAddress (saveToEEPROM (vTaskLogger es) e) =
     write_address (vTaskLogger es) + of_nat sizeof_LogEntry"
proof -
  let ?s = "vTaskLogger es"
  obtain k where k: "k \<le> 35" "unat (currentAddress ?s) = 29 * k"
    using cursor_aligned by blast
  have small: "unat (currentAddress ?s) < 2 ^ 15"
    using k by simp
  note sint = sint_small [OF small]
  have "29 dvd unat (currentAddress ?s)"
    using k(2) by simp
  with sint reachable_write_address [of es] saveToEEPROM_store [OF reachable_write_fits, of es e]
  show ?thesis
    by (simp add: sizeof_LogEntry_def EEPROM_SIZE_def saveToEEPROM_def Let_def)
qed

lemma prefix_write_address:
  assumes "length es < 35"
  shows "unat (write_address (vTaskLogger es)) = 29 * length es"
  using write_in_bounds [OF cursor_prefix, of es] assms by simp

lemma prefix_slots:
  "length es \<le> 35 \<Longrightarrow> k < length es \<Longrightarrow>
   stored (vTaskLogger es) (29 * k) 29 = object_bytes (es ! k)"
proof (induction es rule: rev_induct)
  case Nil
  then show ?case by simp
next
  case (snoc e es)
  then have len: "length es < 35" by simp
  note w = prefix_write_address [OF len]
  have fit: "unat (write_address (vTaskLogger es)) + 29 \<le> 1024"
    using w len by simp
  show ?case
  proof (cases "k = length es")
    case True
    with stored_after_save [OF fit, of e] w show ?thesis
      by (simp add: vTaskLogger_snoc)
  next
    case False
    with snoc.prems have k: "k < length es" by simp
    then have "29 * k + 29 \<le> unat (write_address (vTaskLogger es))"
      using w by simp
    with stored_untouched [OF fit, of "29 * k" 29 e]
    have "stored (vTaskLogger (es @ [e])) (29 * k) 29 = stored (vTaskLogger es) (29 * k) 29"
      by (simp add: vTaskLogger_snoc)
    with snoc.IH k len show ?thesis
      by (simp add: nth_append)
  qed
qed

text \<open>
  Claim C3. With capacity 1024 and entry size 29, of \<open>1024 div 29 + 1 = 36\<close> entries the
  first 35 are written one after the other without a reset; the first entry is at
  offset 0 until the last call, which finds the cursor at the overflow, wraps it to 0
  and writes the last entry over the first. The cursor is then one entry past 0.
\<close>

theorem wraparound_overwrites_first_entry:
  assumes "length es = EEPROM_SIZE div sizeof_LogEntry + 1"
  shows "(\<forall>k<length es - 1.
            unat (write_address (vTaskLogger (take k es))) = k * sizeof_LogEntry \<and>
            \<not> overflows (currentAddress (vTaskLogger (take k es)))) \<and>
         stored (vTaskLogger (butlast es)) 0 sizeof_LogEntry = object_bytes (es ! 0) \<and>
         overflows (currentAddress (vTaskLogger (butlast es))) \<and>
         write_address (vTaskLogger (butlast es)) = 0 \<and>
         stored (vTaskLogger es) 0 sizeof_LogEntry = object_bytes (last es) \<and>
         unat (currentAddress (vTaskLogger es)) = sizeof_LogEntry"
proof -
  from assms have len: "length es = 36"
    by (simp add: EEPROM_SIZE_def sizeof_LogEntry_def)
  then have "es \<noteq> []" by auto
  then have es: "butlast es @ [last es] = es"
    by (rule append_butlast_last_id)
  from len have lb: "length (butlast es) = 35"
    by simp
  have cur: "unat (currentAddress (vTaskLogger (butlast es))) = 29 * 35"
    using cursor_prefix [of "butlast es"] lb by simp
  have ov: "overflows (currentAddress (vTaskLogger (butlast es)))"
    using overflows_slot [OF cur] by simp
  then have w0: "write_address (vTaskLogger (butlast es)) = 0"
    by (simp add: write_address_def)
  have run: "vTaskLogger es = saveToEEPROM (vTaskLogger (butlast es)) (last es)"
    using vTaskLogger_snoc [of "butlast es" "last es"] es by simp
  have first: "stored (vTaskLogger (butlast es)) 0 29 = object_bytes (es ! 0)"
    using prefix_slots [of "butlast es" 0] lb by (simp add: nth_butlast)
  have last: "stored (vTaskLogger es) 0 29 = object_bytes (last es)"
    using stored_after_save [of "vTaskLogger (butlast es)" "last es"] w0 run by simp
  have after: "unat (currentAddress (vTaskLogger es)) = 29"
    using step_cursor [OF cur, of "last es"] run by simp
  have before: "unat (write_address (vTaskLogger (take k es))) = k * 29 \<and>
                \<not> overflows (currentAddress (vTaskLogger (take k es)))" if "k < 35" for k
  proof -
    from that len have l: "length (take k es) = k" by simp
    from prefix_write_address [of "take k es"] overflows_slot [OF cursor_prefix, of "take k es"]
      that l show ?thesis by simp
  qed
  from before first ov w0 last after len show ?thesis
    by (simp add: sizeof_LogEntry_def)
qed

theorem wraparound_overwrites_first_entry_witness:
  "length (map sample_entry [0..<36]) = EEPROM_SIZE div sizeof_LogEntry + 1 \<and>
   stored (vTaskLogger (butlast (map sample_entry [0..<36]))) 0 sizeof_LogEntry
     = object_bytes (map sample_entry [0..<36] ! 0) \<and>
   write_address (vTaskLogger (butlast (map sample_entry [0..<36]))) = 0 \<and>
   stored (vTaskLogger (map sample_entry [0..<36])) 0 sizeof_LogEntry
     = object_bytes (last (map sample_entry [0..<36])) \<and>
   unat (currentAddress (vTaskLogger (map sample_entry [0..<36]))) = sizeof_LogEntry"
proof -
  have "length (map sample_entry [0..<36]) = EEPROM_SIZE div sizeof_LogEntry + 1"
    by (simp add: EEPROM_SIZE_def sizeof_LogEntry_def)
  from this wraparound_overwrites_first_entry [OF this] show ?thesis
    by blast
qed

subsection \<open>Debouncing\<close>

lemma elapsed_small:
  fixes t0 :: "32 word"
  assumes "a \<le> c" and "c - a \<le> 200"
  shows "\<not> 200 < (t0 + of_nat c) - (t0 + of_nat a)"
proof -
  have "(t0 + of_nat c) - (t0 + of_nat a) = (of_nat (c - a) :: 32 word)"
    using assms(1) by simp
  moreover have "unat (of_nat (c - a) :: 32 word) = c - a"
    using assms(2) by (simp add: unat_of_nat)
  ultimately show ?thesis
    using assms(2) by (simp add: word_less_nat_alt)
qed

lemma keyboard_iteration_rejects:
  assumes "key p = 0 \<or> key p = lastKey s"
  shows "keyboard_iteration s p =
           (if 200 < millis_check p - lastKeyTime s then s\<lparr>lastKey := 0\<rparr> else s, [])"
  using assms by (auto simp: keyboard_iteration_def)

lemma keyboard_iteration_accepts:
  assumes "key p \<noteq> 0" and "key p \<noteq> lastKey s"
  shows "keyboard_iteration s p =
           (if 200 < millis_check p - millis_accept p
            then s\<lparr>lastKey := 0, lastKeyTime := millis_accept p\<rparr>
            else s\<lparr>lastKey := key p, lastKeyTime := millis_accept p\<rparr>, [key p])"
  using assms by (auto simp: keyboard_iteration_def)

lemma vTaskKeyboard_Cons:
  "snd (vTaskKeyboard s (p # ps)) =
     snd (keyboard_iteration s p) @ snd (vTaskKeyboard (fst (keyboard_iteration s p)) ps)"
  by (simp add: case_prod_beta)

lemma no_further_dispatch:
  assumes "k \<noteq> 0"
      and "chronological t qs"
      and "\<forall>r\<in>set qs. reported r = 0 \<or> (reported r = k \<and> t_poll r < 200)"
      and "lastKeyTime s = t0 + of_nat a0" and "a0 \<le> t"
      and "lastKey s = k \<or> (lastKey s = 0 \<and> 200 < t)"
  shows "snd (vTaskKeyboard s (map (seen_at t0) qs)) = []"
  using assms(2-)
proof (induction qs arbitrary: s t)
  case Nil
  then show ?case by simp
next
  case (Cons q qs)
  from Cons.prems(1) have times: "t \<le> t_poll q" "t_poll q \<le> t_accept q"
    "t_accept q \<le> t_check q" and rest: "chronological (t_check q) qs"
    by simp_all
  have rejected: "key (seen_at t0 q) = 0 \<or> key (seen_at t0 q) = lastKey s"
    using Cons.prems(2,5) times(1) by (auto simp: seen_at_def)
  define s' where "s' = fst (keyboard_iteration s (seen_at t0 q))"
  have out: "snd (keyboard_iteration s (seen_at t0 q)) = []"
    by (simp add: keyboard_iteration_rejects [OF rejected])
  have s': "s' = (if 200 < (t0 + of_nat (t_check q)) - lastKeyTime s
                  then s\<lparr>lastKey := 0\<rparr> else s)"
    by (simp add: s'_def keyboard_iteration_rejects [OF rejected]) (simp add: seen_at_def)
  have time': "lastKeyTime s' = t0 + of_nat a0"
    using Cons.prems(3) by (simp add: s')
  have a0: "a0 \<le> t_check q"
    using Cons.prems(4) times by simp
  have key': "lastKey s' = k \<or> (lastKey s' = 0 \<and> 200 < t_check q)"
  proof (cases "200 < (t0 + of_nat (t_check q)) - lastKeyTime s")
    case True
    with elapsed_small [OF a0, of t0] Cons.prems(3) have "200 < t_check q"
      by (cases "t_check q - a0 \<le> 200") auto
    with True show ?thesis by (simp add: s')
  next
    case False
    with Cons.prems(5) times show ?thesis by (auto simp: s')
  qed
  from Cons.prems(2) have "\<forall>r\<in>set qs. reported r = 0 \<or> (reported r = k \<and> t_poll r < 200)"
    by simp
  from Cons.IH [OF rest this time' a0 key'] out show ?case
    by (simp add: s'_def vTaskKeyboard_Cons del: vTaskKeyboard.simps)
qed

text \<open>
  Claim C7. A key \<open>k\<close> is reported from time 0 on, only at polls made less than 200 ms
  after the first report, and no other key is reported; the task had not accepted
  \<open>k\<close> last. Then the task dispatches exactly once, on \<open>k\<close>, however often it polls.
\<close>

theorem single_press_single_dispatch:
  assumes "k \<noteq> 0" and "lastKey s \<noteq> k"
      and "reported q = k" and "t_poll q = 0"
      and "chronological 0 (q # qs)"
      and "\<forall>r\<in>set qs. reported r = 0 \<or> (reported r = k \<and> t_poll r < 200)"
  shows "snd (vTaskKeyboard s (map (seen_at t0) (q # qs))) = [k]"
proof -
  from assms(5) have times: "t_accept q \<le> t_check q" and rest: "chronological (t_check q) qs"
    by simp_all
  have accepted: "key (seen_at t0 q) \<noteq> 0" "key (seen_at t0 q) \<noteq> lastKey s"
    using assms(1-3) by (auto simp: seen_at_def)
  define s' where "s' = fst (keyboard_iteration s (seen_at t0 q))"
  have out: "snd (keyboard_iteration s (seen_at t0 q)) = [k]"
    by (simp add: keyboard_iteration_accepts [OF accepted]) (simp add: seen_at_def assms(3))
  have s': "s' = (if 200 < (t0 + of_nat (t_check q)) - (t0 + of_nat (t_accept q))
                  then s\<lparr>lastKey := 0, lastKeyTime := t0 + of_nat (t_accept q)\<rparr>
                  else s\<lparr>lastKey := k, lastKeyTime := t0 + of_nat (t_accept q)\<rparr>)"
    by (simp add: s'_def keyboard_iteration_accepts [OF accepted])
       (simp add: seen_at_def assms(3))
  have time': "lastKeyTime s' = t0 + of_nat (t_accept q)"
    by (simp add: s')
  have key': "lastKey s' = k \<or> (lastKey s' = 0 \<and> 200 < t_check q)"
  proof (cases "200 < (t0 + of_nat (t_check q)) - (t0 + of_nat (t_accept q))")
    case True
    with elapsed_small [OF times, of t0] have "200 < t_check q"
      by (cases "t_check q - t_accept q \<le> 200") auto
    with True show ?thesis by (simp add: s')
  next
    case False
    then show ?thesis by (simp add: s')
  qed
  from no_further_dispatch [OF assms(1) rest assms(6) time' times key'] out show ?thesis
    by (simp add: s'_def vTaskKeyboard_Cons del: vTaskKeyboard.simps)
qed

theorem single_press_single_dispatch_witness:
  "(0x35 :: 8 word) \<noteq> 0 \<and> lastKey kb_initial \<noteq> 0x35 \<and>
   reported \<lparr>reported = 0x35, t_poll = 0, t_accept = 0, t_check = 0\<rparr> = 0x35 \<and>
   t_poll \<lparr>reported = 0x35, t_poll = 0, t_accept = 0, t_check = 0\<rparr> = 0 \<and>
   chronological 0 (\<lparr>reported = 0x35, t_poll = 0, t_accept = 0, t_check = 0\<rparr> # short_press) \<and>
   list_all (\<lambda>r. reported r = 0 \<or> (reported r = 0x35 \<and> t_poll r < 200)) short_press \<and>
   snd (vTaskKeyboard kb_initial
         (map (seen_at 4294967200)
           (\<lparr>reported = 0x35, t_poll = 0, t_accept = 0, t_check = 0\<rparr> # short_press))) = [0x35]"
proof -
  let ?q = "\<lparr>reported = 0x35, t_poll = 0, t_accept = 0, t_check = 0\<rparr>"
  have h1: "(0x35 :: 8 word) \<noteq> 0" by simp
  have h2: "lastKey kb_initial \<noteq> 0x35" by (simp add: kb_initial_def)
  have h3: "reported ?q = 0x35" by simp
  have h4: "t_poll ?q = 0" by simp
  have h5: "chronological 0 (?q # short_press)" by (simp add: short_press_def)
  have h6: "\<forall>r\<in>set short_press. reported r = 0 \<or> (reported r = 0x35 \<and> t_poll r < 200)"
    by (simp add: short_press_def)
  from h1 h2 h3 h4 h5 h6
    single_press_single_dispatch [OF h1 h2 h3 h4 h5 h6, of 4294967200]
  show ?thesis by (simp only: list_all_iff) blast
qed

end
